theory Spec2Isabelle
  imports Main "HOL-Library.Word"
begin

section \<open>Constants and types of read_cdc.c\<close>

text \<open>
  The frame structure constants. A stream word is an \<open>int32_t\<close>; it is kept as a
  \<open>32 word\<close>, read with \<open>sint\<close> where the program prints it with \<open>%d\<close> and used
  as it is where the program casts it to \<open>uint32_t\<close>.
\<close>

definition USB_SOF :: "32 word" where
  "USB_SOF = 0x55555555"

definition USB_EOF :: "32 word" where
  "USB_EOF = 0xAAAAAAAA"

definition N_FRAME_DATA :: int where
  "N_FRAME_DATA = 1250"

definition FRAME_TOTAL_INTS :: int where
  "FRAME_TOTAL_INTS = 1253"

definition FRAME_INTERVAL :: int where
  "FRAME_INTERVAL = 100"

definition EXIT_FAILURE :: int where
  "EXIT_FAILURE = 1"

datatype STATE_t = STATE_FIND_SOF | STATE_FIND_EOF

text \<open>
  What the program prints. A line of the CSV file is the header or one
  \<open>"%lu,%d\n"\<close> row, kept as the two numbers printed. A diagnostic is one message on
  the standard error stream, kept with the values it prints.
\<close>

datatype csv_line = Header | Row nat int

datatype diag =
    ReadError
  | LengthError
  | SizeMismatch "32 word" int
  | IntervalMismatch "32 word"

text \<open>
  The variables of \<open>main\<close> that live across loop iterations, the global \<open>fcsv\<close> and the
  resources the program holds. \<open>read_ptr\<close> is kept as the offset
  \<open>read_ptr - frame_buff\<close>, in words. \<open>fcsv\<close> is \<open>None\<close> for the null pointer and
  otherwise holds the lines printed to the stream that are still in its buffer;
  \<open>csv_file\<close> holds the lines that have reached the file. \<open>sleeps\<close> counts the calls of
  \<open>nanosleep\<close>.
\<close>

record sync =
  state :: STATE_t
  read_ptr :: int
  frame_buff :: "32 word list"
  last_frame_timestamp :: "32 word"
  fcsv :: "csv_line list option"
  csv_file :: "csv_line list"
  stderr :: "diag list"
  tty_open :: bool
  buff_live :: bool
  sleeps :: nat

text \<open>
  How an iteration of the loop can end: the loop goes on, the process exits with a
  status, or the program has read or written outside an object (\<open>Fault\<close>).
\<close>

datatype outcome = Running sync | Exited int sync | Fault

section \<open>The output stream and the signal handler\<close>

definition fflush_fcsv :: "sync \<Rightarrow> sync" where
  "fflush_fcsv s =
     (case fcsv s of
        None \<Rightarrow> s
      | Some b \<Rightarrow> s\<lparr>fcsv := Some [], csv_file := csv_file s @ b\<rparr>)"

text \<open>\<open>fclose(fcsv); fcsv = NULL;\<close> under the test \<open>if (fcsv)\<close>: closing writes the buffer out.\<close>

definition fclose_fcsv :: "sync \<Rightarrow> sync" where
  "fclose_fcsv s =
     (case fcsv s of
        None \<Rightarrow> s
      | Some b \<Rightarrow> s\<lparr>fcsv := None, csv_file := csv_file s @ b\<rparr>)"

definition handle_signal :: "int \<Rightarrow> sync \<Rightarrow> outcome" where
  "handle_signal sig s =
     Exited (128 + sig)
       (if fcsv s \<noteq> None then fclose_fcsv (fflush_fcsv s) else s)"

text \<open>The signal numbers of \<open>signal.h\<close> that \<open>main\<close> registers the handler for.\<close>

definition SIGINT :: int where
  "SIGINT = 2"

definition SIGTERM :: int where
  "SIGTERM = 15"

text \<open>Every line printed so far, whether it is still buffered or not.\<close>

definition csv_out :: "sync \<Rightarrow> csv_line list" where
  "csv_out s = csv_file s @ (case fcsv s of None \<Rightarrow> [] | Some b \<Rightarrow> b)"

section \<open>The serial device\<close>

text \<open>
  The device is a queue of words that have not been read yet. Each call of \<open>read\<close>
  meets one event: \<open>Fail\<close>, the call returns \<open>-1\<close>, or \<open>Avail k\<close>, at most \<open>k\<close> words
  are there to be taken. A call never returns more bytes than it asks for, and the
  device hands over whole words only. The result is the return value in bytes, the
  words written at the destination, and the rest of the queue.
\<close>

datatype ev = Fail | Avail nat

definition tty_read :: "ev \<Rightarrow> 32 word list \<Rightarrow> nat \<Rightarrow> int \<times> 32 word list \<times> 32 word list" where
  "tty_read e pending count =
     (case e of
        Fail \<Rightarrow> (- 1, [], pending)
      | Avail k \<Rightarrow>
          (let ws = take (min k (count div 4)) pending
           in (4 * int (length ws), ws, drop (length ws) pending)))"

text \<open>C's integer division truncates towards zero.\<close>

definition c_div :: "int \<Rightarrow> int \<Rightarrow> int" where
  "c_div a b = sgn a * sgn b * (\<bar>a\<bar> div \<bar>b\<bar>)"

text \<open>
  Writing the words of a read at an offset of the buffer, and reading the word a
  pointer into the buffer points at. Both are \<open>None\<close> outside the buffer.
\<close>

definition store :: "32 word list \<Rightarrow> int \<Rightarrow> 32 word list \<Rightarrow> 32 word list option" where
  "store buf off ws =
     (if ws = [] then Some buf
      else if 0 \<le> off \<and> off + int (length ws) \<le> int (length buf)
      then Some (take (nat off) buf @ ws @ drop (nat off + length ws) buf)
      else None)"

definition peek :: "32 word list \<Rightarrow> int \<Rightarrow> 32 word option" where
  "peek buf i = (if 0 \<le> i \<and> i < int (length buf) then Some (buf ! nat i) else None)"

section \<open>The loop of main\<close>

text \<open>The \<open>for\<close> loop that prints the samples of a frame, from index \<open>i\<close> on.\<close>

function csv_rows :: "int \<Rightarrow> 64 word \<Rightarrow> 32 word list \<Rightarrow> csv_line list" where
  "csv_rows i data_timestamp buf =
     (if i < FRAME_TOTAL_INTS - 1
      then Row (unat data_timestamp) (sint (buf ! nat i))
             # csv_rows (i + 1)
                 (data_timestamp + word_of_int ((FRAME_INTERVAL * 1000) div (FRAME_TOTAL_INTS - 3)))
                 buf
      else [])"
  by pat_completeness auto
termination
  by (relation "measure (\<lambda>(i, t, buf). nat (FRAME_TOTAL_INTS - 1 - i))") auto

declare csv_rows.simps [simp del]

text \<open>
  The end of frame has been seen at \<open>read_ptr\<close>: the size check, the interval check
  against the static \<open>last_frame_timestamp\<close>, the rows, and the reset. The product
  \<open>(uint32_t)frame_buff[1] * 1000\<close> is computed in 32 bits and then widened.
\<close>

definition process_frame :: "sync \<Rightarrow> outcome" where
  "process_frame s =
     (let ts = frame_buff s ! 1;
          e1 = (if read_ptr s + 1 \<noteq> FRAME_TOTAL_INTS
                then [SizeMismatch ts (read_ptr s + 1)] else []);
          e2 = (if last_frame_timestamp s \<noteq> 0
                then (let interval = ts - last_frame_timestamp s
                      in if interval \<noteq> word_of_int FRAME_INTERVAL
                         then [IntervalMismatch interval] else [])
                else []);
          data_timestamp = (ucast (ts * 1000) :: 64 word)
      in case fcsv s of
           None \<Rightarrow> Fault
         | Some b \<Rightarrow>
             Running (s\<lparr>stderr := stderr s @ e1 @ e2,
                        last_frame_timestamp := ts,
                        fcsv := Some (b @ csv_rows 2 data_timestamp (frame_buff s)),
                        read_ptr := 0,
                        state := STATE_FIND_SOF\<rparr>))"

text \<open>The block under \<open>if(state == STATE_FIND_EOF)\<close>, after a read of \<open>n\<close> words.\<close>

definition find_eof :: "int \<Rightarrow> sync \<Rightarrow> outcome" where
  "find_eof n s =
     (let s1 = s\<lparr>read_ptr := read_ptr s + (n - 1)\<rparr>
      in case peek (frame_buff s1) (read_ptr s1) of
           None \<Rightarrow> Fault
         | Some w \<Rightarrow>
             if w \<noteq> USB_EOF
             then (if read_ptr s1 \<ge> FRAME_TOTAL_INTS
                   then Running (s1\<lparr>stderr := stderr s1 @ [LengthError],
                                    read_ptr := 0,
                                    state := STATE_FIND_SOF\<rparr>)
                   else Running (s1\<lparr>read_ptr := read_ptr s1 + 1,
                                    sleeps := sleeps s1 + 1\<rparr>))
             else process_frame s1)"

text \<open>
  The block under \<open>if(state == STATE_FIND_SOF)\<close>: \<open>Inl\<close> is the \<open>continue\<close> (or the
  fault), \<open>Inr\<close> falls through to the next statement.
\<close>

definition find_sof :: "sync \<Rightarrow> outcome + sync" where
  "find_sof s =
     (if state s = STATE_FIND_SOF
      then (case peek (frame_buff s) (read_ptr s) of
              None \<Rightarrow> Inl Fault
            | Some w \<Rightarrow>
                if w \<noteq> USB_SOF then Inl (Running s)
                else Inr (s\<lparr>state := STATE_FIND_EOF\<rparr>))
      else Inr s)"

text \<open>
  The byte count a call of \<open>read\<close> asks for,
  \<open>(FRAME_TOTAL_INTS - (read_ptr - frame_buff))*sizeof(int32_t)\<close>, a \<open>size_t\<close>.
\<close>

definition read_count :: "sync \<Rightarrow> nat" where
  "read_count s = nat (((FRAME_TOTAL_INTS - read_ptr s) * 4) mod 2 ^ 64)"

text \<open>One iteration of \<open>while(1)\<close>, meeting the event \<open>e\<close> at its call of \<open>read\<close>.\<close>

definition loop_body :: "ev \<Rightarrow> 32 word list \<Rightarrow> sync \<Rightarrow> 32 word list \<times> outcome" where
  "loop_body e pending s =
     (let (r, ws, pending') = tty_read e pending (read_count s);
          n = c_div r 4
      in case store (frame_buff s) (read_ptr s) ws of
           None \<Rightarrow> (pending', Fault)
         | Some buf \<Rightarrow>
             (let s0 = s\<lparr>frame_buff := buf\<rparr>
              in (pending',
                  if n < 0
                  then Exited EXIT_FAILURE
                         (fclose_fcsv (s0\<lparr>stderr := stderr s0 @ [ReadError],
                                           buff_live := False,
                                           tty_open := False\<rparr>))
                  else if n = 0
                  then Running (s0\<lparr>sleeps := sleeps s0 + 1\<rparr>)
                  else (case find_sof s0 of
                          Inl out \<Rightarrow> out
                        | Inr s1 \<Rightarrow>
                            if state s1 = STATE_FIND_EOF then find_eof n s1
                            else Running s1))))"

text \<open>
  The loop over a finite sequence of read events. The program's loop has no exit of its
  own; \<open>run\<close> gives the device queue and the program after the events listed.
\<close>

fun run :: "ev list \<Rightarrow> 32 word list \<Rightarrow> sync \<Rightarrow> 32 word list \<times> outcome" where
  "run [] pending s = (pending, Running s)"
| "run (e # es) pending s =
     (case loop_body e pending s of
        (pending', Running s') \<Rightarrow> run es pending' s'
      | (pending', out) \<Rightarrow> (pending', out))"

text \<open>
  The program when it enters the loop: the device and the output file are open, the
  buffer comes zeroed from \<open>calloc\<close>, and the CSV header has been printed.
\<close>

definition main_init :: sync where
  "main_init =
     \<lparr>state = STATE_FIND_SOF,
      read_ptr = 0,
      frame_buff = replicate (nat FRAME_TOTAL_INTS) 0,
      last_frame_timestamp = 0,
      fcsv = Some [Header],
      csv_file = [],
      stderr = [],
      tty_open = True,
      buff_live = True,
      sleeps = 0\<rparr>"

section \<open>Notions used to state the properties\<close>

text \<open>The exit status of a process that has ended.\<close>

definition exit_status :: "outcome \<Rightarrow> int option" where
  "exit_status out = (case out of Exited k s \<Rightarrow> Some k | Running s \<Rightarrow> None | Fault \<Rightarrow> None)"

text \<open>
  The number of sleeps is timing, not data: \<open>untimed\<close> forgets it, \<open>add_sleeps\<close>
  shifts it.
\<close>

definition map_outcome :: "(sync \<Rightarrow> sync) \<Rightarrow> outcome \<Rightarrow> outcome" where
  "map_outcome g out =
     (case out of
        Running s \<Rightarrow> Running (g s)
      | Exited k s \<Rightarrow> Exited k (g s)
      | Fault \<Rightarrow> Fault)"

definition untimed :: "32 word list \<times> outcome \<Rightarrow> 32 word list \<times> outcome" where
  "untimed c = (fst c, map_outcome (\<lambda>s. s\<lparr>sleeps := 0\<rparr>) (snd c))"

definition add_sleeps :: "nat \<Rightarrow> 32 word list \<times> outcome \<Rightarrow> 32 word list \<times> outcome" where
  "add_sleeps d c = (fst c, map_outcome (\<lambda>s. s\<lparr>sleeps := sleeps s + d\<rparr>) (snd c))"

text \<open>The CSV lines and the diagnostics printed by the end of a run.\<close>

definition printed :: "32 word list \<times> outcome \<Rightarrow> csv_line list" where
  "printed c = (case snd c of Running s \<Rightarrow> csv_out s | Exited k s \<Rightarrow> csv_out s | Fault \<Rightarrow> [])"


text \<open>A read that returns no data, as an event of the device.\<close>

definition zero_read :: "ev \<Rightarrow> bool" where
  "zero_read e \<longleftrightarrow> e = Avail 0"

text \<open>The sample column of a CSV line.\<close>

fun row_sample :: "csv_line \<Rightarrow> int" where
  "row_sample (Row t v) = v"
| "row_sample Header = 0"

text \<open>
  A frame on the wire, as the comment at \<open>FRAME_TOTAL_INTS\<close> gives it: the start
  sentinel, the timestamp, the samples, the end sentinel.
\<close>

definition frame :: "32 word \<Rightarrow> 32 word list \<Rightarrow> 32 word list" where
  "frame ts payload = USB_SOF # ts # payload @ [USB_EOF]"

text \<open>
  A frame the accumulation takes in whole under every way of splitting it into reads:
  1250 samples, and no word that the test for the end sentinel can meet before the
  last one equals \<open>USB_EOF\<close>.
\<close>

definition valid_frame :: "32 word \<Rightarrow> 32 word list \<Rightarrow> bool" where
  "valid_frame ts payload \<longleftrightarrow>
     ts \<noteq> USB_EOF \<and> length payload = nat N_FRAME_DATA \<and> USB_EOF \<notin> set payload"

text \<open>
  The rows of a frame as the program prints them: the start is the 32-bit product of
  the timestamp and 1000, each row adds 80.
\<close>

definition frame_rows :: "32 word \<Rightarrow> 32 word list \<Rightarrow> csv_line list" where
  "frame_rows ts payload =
     map (\<lambda>k. Row ((unat ts * 1000) mod 2 ^ 32 + 80 * k) (sint (payload ! k)))
       [0..<length payload]"

definition interval_diag :: "32 word \<Rightarrow> 32 word \<Rightarrow> diag list" where
  "interval_diag prev ts =
     (if prev \<noteq> 0 \<and> ts - prev \<noteq> 100 then [IntervalMismatch (ts - prev)] else [])"

text \<open>The program between frames, and the program after it has taken a frame in.\<close>

definition ready :: "sync \<Rightarrow> bool" where
  "ready s \<longleftrightarrow>
     state s = STATE_FIND_SOF \<and> read_ptr s = 0 \<and>
     length (frame_buff s) = nat FRAME_TOTAL_INTS \<and> fcsv s \<noteq> None"

definition accepted :: "32 word \<Rightarrow> 32 word list \<Rightarrow> sync \<Rightarrow> sync" where
  "accepted ts payload s =
     s\<lparr>state := STATE_FIND_SOF,
       read_ptr := 0,
       frame_buff := frame ts payload,
       last_frame_timestamp := ts,
       fcsv := map_option (\<lambda>b. b @ frame_rows ts payload) (fcsv s),
       stderr := stderr s @ interval_diag (last_frame_timestamp s) ts\<rparr>"

text \<open>
  The program after it has taken in and processed the 1253 words \<open>f\<close> whose last one is the
  end sentinel, with the rows as the loop of the program prints them.
\<close>

definition taken :: "32 word list \<Rightarrow> sync \<Rightarrow> sync" where
  "taken f s =
     s\<lparr>state := STATE_FIND_SOF,
       read_ptr := 0,
       frame_buff := f,
       last_frame_timestamp := f ! 1,
       fcsv := map_option (\<lambda>b. b @ csv_rows 2 (ucast (f ! 1 * 1000)) f) (fcsv s),
       stderr := stderr s @ interval_diag (last_frame_timestamp s) (f ! 1)\<rparr>"




text \<open>
  1253 words that the accumulation takes in as one unit under every way of splitting
  them into reads: the first is the start sentinel and none before the last is the
  end sentinel.
\<close>

definition fills :: "32 word list \<Rightarrow> bool" where
  "fills f \<longleftrightarrow>
     length f = nat FRAME_TOTAL_INTS \<and> hd f = USB_SOF \<and> USB_EOF \<notin> set (butlast f)"

text \<open>The fill offset and the buffer are in bounds and the output stream is open.\<close>

definition in_bounds :: "sync \<Rightarrow> bool" where
  "in_bounds s \<longleftrightarrow>
     0 \<le> read_ptr s \<and> read_ptr s \<le> FRAME_TOTAL_INTS \<and>
     length (frame_buff s) = nat FRAME_TOTAL_INTS \<and> fcsv s \<noteq> None"

text \<open>The program after it has taken in the first \<open>k\<close> words of the frame \<open>f\<close>.\<close>

definition mid :: "32 word list \<Rightarrow> nat \<Rightarrow> sync \<Rightarrow> sync" where
  "mid f k s =
     s\<lparr>frame_buff := take k f @ drop k (frame_buff s),
       read_ptr := int k,
       state := (if k = 0 then STATE_FIND_SOF else STATE_FIND_EOF)\<rparr>"

section \<open>A failed read\<close>

lemma c_div_minus_one_4: "c_div (- 1) 4 = 0"
  by (simp add: c_div_def)

lemma loop_body_Fail:
  "loop_body Fail pending s = (pending, Running (s\<lparr>sleeps := sleeps s + 1\<rparr>))"
  by (simp add: loop_body_def tty_read_def store_def c_div_minus_one_4)

text \<open>
  C2. The claim: a read that reports an error ends the program with a diagnostic, the
  resources released and exit status 1. In the code the return value \<open>-1\<close> is divided
  by 4 before it is tested, and C's division gives 0: the failed read is taken for a
  read of no data. Whatever the state and however many reads fail in a row, the loop
  only sleeps and goes on; nothing is printed and nothing is released.
\<close>

theorem C2_read_error_not_fatal:
  "run (replicate k Fail) pending s = (pending, Running (s\<lparr>sleeps := sleeps s + k\<rparr>))"
proof (induction k arbitrary: s)
  case 0
  show ?case by simp
next
  case (Suc k)
  show ?case by (simp add: loop_body_Fail Suc.IH)
qed

section \<open>The rows of a frame\<close>

lemma csv_rows_from:
  "2 \<le> i \<Longrightarrow> i \<le> FRAME_TOTAL_INTS - 1 \<Longrightarrow>
   csv_rows i t buf =
     map (\<lambda>k. Row (unat (t + 80 * of_nat k)) (sint (buf ! (nat i + k))))
       [0..<nat (FRAME_TOTAL_INTS - 1 - i)]"
proof (induction i t buf rule: csv_rows.induct)
  case (1 i t buf)
  show ?case
  proof (cases "i < FRAME_TOTAL_INTS - 1")
    case False
    with "1.prems" show ?thesis by (subst csv_rows.simps) simp
  next
    case True
    let ?n = "nat (FRAME_TOTAL_INTS - 1 - (i + 1))"
    have step: "(FRAME_INTERVAL * 1000) div (FRAME_TOTAL_INTS - 3) = 80"
      by (simp add: FRAME_INTERVAL_def FRAME_TOTAL_INTS_def)
    have n: "nat (FRAME_TOTAL_INTS - 1 - i) = Suc ?n"
      using True by simp
    have ih: "csv_rows (i + 1) (t + 80) buf =
        map (\<lambda>k. Row (unat (t + 80 + 80 * of_nat k)) (sint (buf ! (nat (i + 1) + k)))) [0..<?n]"
      using "1.IH" [OF True] "1.prems" True by (simp add: step)
    have idx: "nat (i + 1) = Suc (nat i)"
      using "1.prems" by simp
    have "csv_rows i t buf = Row (unat t) (sint (buf ! nat i)) # csv_rows (i + 1) (t + 80) buf"
      using True by (subst csv_rows.simps) (simp add: step)
    also have "\<dots> = map (\<lambda>k. Row (unat (t + 80 * of_nat k)) (sint (buf ! (nat i + k)))) [0..<Suc ?n]"
      unfolding map_upt_Suc ih idx by (simp add: distrib_left add.assoc)
    finally show ?thesis by (simp only: n)
  qed
qed

lemma csv_rows_2:
  "csv_rows 2 t buf =
     map (\<lambda>k. Row (unat (t + 80 * of_nat k)) (sint (buf ! (2 + k)))) [0..<1250]"
  using csv_rows_from [of 2 t buf] by (simp add: FRAME_TOTAL_INTS_def)

lemma unat_data_timestamp:
  assumes "k < 1250"
  shows "unat ((ucast (ts * 1000 :: 32 word) :: 64 word) + 80 * of_nat k)
           = (unat ts * 1000) mod 2 ^ 32 + 80 * k"
proof -
  have lt: "(unat ts * 1000) mod 2 ^ 32 < (2::nat) ^ 32" by simp
  have a: "unat (ucast (ts * 1000 :: 32 word) :: 64 word) = (unat ts * 1000) mod 2 ^ 32"
    using lt by (simp add: unsigned_ucast_eq unat_word_ariths take_bit_nat_eq_self)
  have b: "unat (80 * of_nat k :: 64 word) = 80 * k"
    using assms by (simp add: unat_word_ariths unat_of_nat)
  have "(unat ts * 1000) mod 2 ^ 32 + 80 * k < 2 ^ 64" using assms lt by simp
  then show ?thesis
    using a b by (simp add: unat_word_ariths)
qed

section \<open>The fill offset stays in bounds\<close>

lemma take_min_length: "take (min (length p) k) p = take k p"
  by (cases "k \<le> length p") (simp_all add: min_def)

lemma c_div_4: "c_div (4 * int m) 4 = int m"
  by (simp add: c_div_def sgn_if)

lemma read_count_in_bounds:
  "in_bounds s \<Longrightarrow> read_count s = 4 * nat (FRAME_TOTAL_INTS - read_ptr s)"
  by (simp add: in_bounds_def read_count_def FRAME_TOTAL_INTS_def nat_mult_distrib)

lemma find_eof_in_bounds:
  assumes "length (frame_buff s) = nat FRAME_TOTAL_INTS" "fcsv s \<noteq> None"
    and "0 \<le> read_ptr s" "1 \<le> n" "read_ptr s + n \<le> FRAME_TOTAL_INTS"
  shows "\<exists>s'. find_eof n s = Running s' \<and> in_bounds s' \<and>
           (LengthError \<in> set (stderr s') \<longrightarrow> LengthError \<in> set (stderr s))"
  using assms
  by (auto simp: find_eof_def process_frame_def peek_def Let_def in_bounds_def FRAME_TOTAL_INTS_def
      split: option.splits)

lemma loop_body_in_bounds:
  assumes "in_bounds s"
  shows "\<exists>p' s'. loop_body e p s = (p', Running s') \<and> in_bounds s' \<and> length p' \<le> length p \<and>
           (LengthError \<in> set (stderr s') \<longrightarrow> LengthError \<in> set (stderr s))"
proof (cases e)
  case Fail
  then show ?thesis using assms by (simp add: loop_body_Fail in_bounds_def)
next
  case (Avail a)
  define m where "m = length (take (min a (read_count s div 4)) p)"
  define buf where "buf = take (nat (read_ptr s)) (frame_buff s) @ take m p @ drop (nat (read_ptr s) + m) (frame_buff s)"
  have m_le: "int m \<le> FRAME_TOTAL_INTS - read_ptr s"
    using assms by (auto simp: m_def read_count_in_bounds in_bounds_def min_def)
  have tk: "take (min a (read_count s div 4)) p = take m p"
    unfolding m_def length_take by (rule take_min_length [symmetric])
  have rd: "tty_read e p (read_count s) = (4 * int m, take m p, drop m p)"
    unfolding tty_read_def Avail by (simp add: Let_def tk) (simp add: m_def)
  show ?thesis
  proof (cases "m = 0")
    case True
    then have "take m p = []" by simp
    then show ?thesis using assms True
      by (simp add: loop_body_def rd store_def c_div_def in_bounds_def)
  next
    case False
    have len: "length (take m p) = m" by (simp add: m_def)
    have st: "store (frame_buff s) (read_ptr s) (take m p) = Some buf"
      using assms False m_le len by (auto simp: store_def buf_def in_bounds_def)
    have lb: "length buf = nat FRAME_TOTAL_INTS"
    proof -
      obtain k where k: "read_ptr s = int k" "k + m \<le> 1253"
        using assms m_le by (auto simp: in_bounds_def FRAME_TOTAL_INTS_def intro: that [of "nat (read_ptr s)"])
      show ?thesis
        using assms k len by (simp add: buf_def in_bounds_def FRAME_TOTAL_INTS_def)
    qed
    let ?s0 = "s\<lparr>frame_buff := buf\<rparr>"
    have body: "loop_body e p s = (drop m p,
        case find_sof ?s0 of Inl out \<Rightarrow> out
        | Inr s1 \<Rightarrow> if state s1 = STATE_FIND_EOF then find_eof (int m) s1 else Running s1)"
      using False by (simp add: loop_body_def rd st c_div_4)
    have pk: "peek buf (read_ptr s) \<noteq> None"
      using assms m_le False lb by (simp add: peek_def in_bounds_def)
    have fe: "\<exists>s'. find_eof (int m) (?s0\<lparr>state := STATE_FIND_EOF\<rparr>) = Running s' \<and> in_bounds s' \<and>
           (LengthError \<in> set (stderr s') \<longrightarrow> LengthError \<in> set (stderr s))"
      using find_eof_in_bounds [of "?s0\<lparr>state := STATE_FIND_EOF\<rparr>" "int m"] assms m_le False lb
      by (simp add: in_bounds_def)
    have ib0: "in_bounds ?s0" using assms lb by (simp add: in_bounds_def)
    show ?thesis
    proof (cases "state s")
      case STATE_FIND_SOF
      then show ?thesis using pk fe ib0
        by (auto simp: body find_sof_def split: option.splits)
    next
      case STATE_FIND_EOF
      then have "?s0\<lparr>state := STATE_FIND_EOF\<rparr> = ?s0" by simp
      with fe STATE_FIND_EOF show ?thesis
        by (auto simp: body find_sof_def)
    qed
  qed
qed

lemma run_in_bounds:
  "in_bounds s \<Longrightarrow> \<exists>p' s'. run es p s = (p', Running s') \<and> in_bounds s' \<and> length p' \<le> length p \<and>
           (LengthError \<in> set (stderr s') \<longrightarrow> LengthError \<in> set (stderr s))"
proof (induction es arbitrary: p s)
  case Nil
  then show ?case by simp
next
  case (Cons e es)
  from loop_body_in_bounds [OF Cons.prems, of e p]
  obtain p1 s1 where 1: "loop_body e p s = (p1, Running s1)" "in_bounds s1" "length p1 \<le> length p"
    "LengthError \<in> set (stderr s1) \<longrightarrow> LengthError \<in> set (stderr s)" by blast
  from Cons.IH [OF 1(2), of p1]
  obtain p2 s2 where 2: "run es p1 s1 = (p2, Running s2)" "in_bounds s2" "length p2 \<le> length p1"
    "LengthError \<in> set (stderr s2) \<longrightarrow> LengthError \<in> set (stderr s1)" by blast
  show ?case using 1 2 by simp
qed

lemma in_bounds_main_init: "in_bounds main_init"
  by (simp add: in_bounds_def main_init_def FRAME_TOTAL_INTS_def)

lemma loop_body_full:
  assumes "read_ptr s = FRAME_TOTAL_INTS"
  shows "loop_body e p s = (p, Running (s\<lparr>sleeps := sleeps s + 1\<rparr>))"
proof (cases e)
  case Fail
  then show ?thesis by (simp add: loop_body_Fail)
next
  case (Avail a)
  have "read_count s = 0" using assms by (simp add: read_count_def)
  then show ?thesis
    by (simp add: loop_body_def tty_read_def Avail store_def c_div_def)
qed

lemma run_full:
  "read_ptr s = FRAME_TOTAL_INTS \<Longrightarrow> run es p s = (p, Running (s\<lparr>sleeps := sleeps s + length es\<rparr>))"
proof (induction es arbitrary: s)
  case Nil
  then show ?case by simp
next
  case (Cons e es)
  then show ?case by (simp add: loop_body_full)
qed

section \<open>One read, by cases\<close>

lemma loop_body_Avail:
  assumes "in_bounds s"
    and "m = min a (min (nat (FRAME_TOTAL_INTS - read_ptr s)) (length p))"
  shows "loop_body (Avail a) p s =
     (drop m p,
      if m = 0 then Running (s\<lparr>sleeps := sleeps s + 1\<rparr>)
      else (case find_sof (s\<lparr>frame_buff := take (nat (read_ptr s)) (frame_buff s) @ take m p
                                  @ drop (nat (read_ptr s) + m) (frame_buff s)\<rparr>) of
              Inl out \<Rightarrow> out
            | Inr s1 \<Rightarrow> if state s1 = STATE_FIND_EOF then find_eof (int m) s1 else Running s1))"
proof -
  have cnt: "read_count s div 4 = nat (FRAME_TOTAL_INTS - read_ptr s)"
    using assms(1) by (simp add: read_count_in_bounds)
  have tk: "take (min a (read_count s div 4)) p = take m p"
    unfolding assms(2) cnt
    by (metis min.assoc min.commute take_min_length)
  have mle: "m \<le> length p"
    by (simp add: assms(2))
  then have len: "length (take m p) = m"
    by simp
  have rd: "tty_read (Avail a) p (read_count s) = (4 * int m, take m p, drop m p)"
    unfolding tty_read_def using mle by (simp add: Let_def tk min_absorb2)
  show ?thesis
  proof (cases "m = 0")
    case True
    then have "take m p = []" by simp
    then show ?thesis using True
      by (simp add: loop_body_def rd store_def c_div_def)
  next
    case False
    have "int m \<le> FRAME_TOTAL_INTS - read_ptr s"
      using assms by (auto simp: in_bounds_def min_def)
    then have st: "store (frame_buff s) (read_ptr s) (take m p)
        = Some (take (nat (read_ptr s)) (frame_buff s) @ take m p
                  @ drop (nat (read_ptr s) + m) (frame_buff s))"
      using assms(1) False len by (auto simp: store_def in_bounds_def)
    show ?thesis using False by (simp add: loop_body_def rd st c_div_4)
  qed
qed

section \<open>Filling the buffer\<close>

lemma fill_lists:
  assumes "length f = n" "length buf = n" "k + m \<le> n"
  shows "take k (take k f @ drop k buf) @ take m (drop k f @ rest)
           @ drop (k + m) (take k f @ drop k buf)
         = take (k + m) f @ drop (k + m) buf"
proof -
  have 1: "take k (take k f @ drop k buf) = take k f" using assms by simp
  have 2: "take m (drop k f @ rest) = take m (drop k f)" using assms by simp
  have 3: "drop (k + m) (take k f @ drop k buf) = drop (k + m) buf"
    using assms by (simp add: add.commute)
  have 4: "take k f @ take m (drop k f) = take (k + m) f" by (simp add: take_add)
  show ?thesis unfolding 1 2 3 using 4 by simp
qed

lemma fills_nth:
  assumes "fills f" "i < 1252"
  shows "f ! i \<noteq> USB_EOF"
proof -
  have "i < length (butlast f)" using assms by (simp add: fills_def FRAME_TOTAL_INTS_def)
  then have "butlast f ! i \<in> set (butlast f)" by (rule nth_mem)
  moreover have "butlast f ! i = f ! i" using \<open>i < length (butlast f)\<close> by (rule nth_butlast)
  ultimately show ?thesis using assms(1) by (auto simp: fills_def)
qed

lemma fills_0: "fills f \<Longrightarrow> f ! 0 = USB_SOF"
  by (cases f) (simp_all add: fills_def FRAME_TOTAL_INTS_def)

lemma fills_last: "fills f \<Longrightarrow> f ! 1252 = last f"
  by (cases "f = []") (simp_all add: fills_def FRAME_TOTAL_INTS_def last_conv_nth)

lemma word_of_int_FRAME_INTERVAL: "(word_of_int FRAME_INTERVAL :: 32 word) = 100"
  by (simp add: FRAME_INTERVAL_def)

lemma process_frame_full:
  assumes "read_ptr s = 1252" "fcsv s \<noteq> None"
  shows "process_frame s = Running ((taken (frame_buff s) s))"
  using assms
  by (auto simp: process_frame_def taken_def Let_def interval_diag_def FRAME_TOTAL_INTS_def
      word_of_int_FRAME_INTERVAL)

lemma find_eof_at:
  assumes "n = int j + 1 - read_ptr s" "peek (frame_buff s) (int j) = Some w"
  shows "find_eof n s =
     (if w \<noteq> USB_EOF
      then (if int j \<ge> FRAME_TOTAL_INTS
            then Running (s\<lparr>read_ptr := 0, state := STATE_FIND_SOF,
                             stderr := stderr s @ [LengthError]\<rparr>)
            else Running (s\<lparr>read_ptr := int j + 1, sleeps := sleeps s + 1\<rparr>))
      else process_frame (s\<lparr>read_ptr := int j\<rparr>))"
  by (simp add: find_eof_def Let_def assms)

lemma loop_body_fill:
  assumes f: "fills f"
    and s: "length (frame_buff s) = nat FRAME_TOTAL_INTS" "fcsv s \<noteq> None"
    and k: "k < 1253" and m: "m = min a (1253 - k)"
  shows "loop_body (Avail a) (drop k f @ rest) ((mid f k s)\<lparr>sleeps := sl\<rparr>) =
     (drop (k + m) f @ rest,
      Running (if m = 0 then (mid f k s)\<lparr>sleeps := Suc sl\<rparr>
               else if k + m = 1253 \<and> last f = USB_EOF then (taken f s)\<lparr>sleeps := sl\<rparr>
               else (mid f (k + m) s)\<lparr>sleeps := Suc sl\<rparr>))"
proof -
  let ?t = "(mid f k s)\<lparr>sleeps := sl\<rparr>"
  have lf: "length f = 1253" using f by (simp add: fills_def FRAME_TOTAL_INTS_def)
  have lb: "length (frame_buff s) = 1253" using s by (simp add: FRAME_TOTAL_INTS_def)
  have km: "k + m \<le> 1253" using k m by simp
  have ib: "in_bounds ?t"
    using lf lb k s by (simp add: in_bounds_def mid_def FRAME_TOTAL_INTS_def)
  have m': "m = min a (min (nat (FRAME_TOTAL_INTS - read_ptr ?t)) (length (drop k f @ rest)))"
    using lf k m by (simp add: mid_def FRAME_TOTAL_INTS_def)
  have dr: "drop m (drop k f @ rest) = drop (k + m) f @ rest"
    using lf km by (simp add: add.commute)
  note body = loop_body_Avail [OF ib m', unfolded dr]
  show ?thesis
  proof (cases "m = 0")
    case True
    then show ?thesis by (simp add: body)
  next
    case False
    define buf0 where "buf0 = take (k + m) f @ drop (k + m) (frame_buff s)"
    have bufeq: "take (nat (read_ptr ?t)) (frame_buff ?t) @ take m (drop k f @ rest)
                  @ drop (nat (read_ptr ?t) + m) (frame_buff ?t) = buf0"
      using fill_lists [OF lf lb km, of rest] by (simp add: mid_def buf0_def)
    have nth: "buf0 ! i = f ! i" if "i < k + m" for i
      using that lf km by (simp add: buf0_def nth_append)
    have lb0: "length buf0 = 1253" using lf lb km by (simp add: buf0_def)
    let ?s1 = "?t\<lparr>frame_buff := buf0, state := STATE_FIND_EOF\<rparr>"
    have fs: "find_sof (?t\<lparr>frame_buff := buf0\<rparr>) = Inr ?s1"
    proof (cases "k = 0")
      case True
      have "peek buf0 0 = Some USB_SOF"
        using nth [of 0] False True lb0 fills_0 [OF f] by (simp add: peek_def)
      then show ?thesis using True by (simp add: find_sof_def mid_def)
    next
      case False
      then show ?thesis by (simp add: find_sof_def mid_def)
    qed
    define j where "j = k + m - 1"
    have j: "j < k + m" "j < 1253" "Suc j = k + m"
      using False km by (simp_all add: j_def)
    have rp: "int m = int j + 1 - read_ptr ?s1"
      using j(3) by (simp add: mid_def)
    have pk1: "peek (frame_buff ?s1) (int j) = Some (f ! j)"
      using nth [OF j(1)] lb0 j(2) by (simp add: peek_def)
    note fe = find_eof_at [OF rp pk1]
    have pk: "peek buf0 (int j) = Some (f ! j)"
      using nth [OF j(1)] lb0 j(2) by (simp add: peek_def)
    have body2: "loop_body (Avail a) (drop k f @ rest) ?t = (drop (k + m) f @ rest, find_eof (int m) ?s1)"
      unfolding body bufeq fs using False by simp
    show ?thesis
    proof (cases "k + m = 1253")
      case True
      note full = True
      have buf0f: "buf0 = f" using lf lb True by (simp add: buf0_def)
      have idx: "j = 1252" using True j(3) by simp
      show ?thesis
      proof (cases "last f = USB_EOF")
        case True
        have "find_eof (int m) ?s1 = process_frame (?s1\<lparr>read_ptr := 1252\<rparr>)"
          unfolding fe using True fills_last [OF f] idx by simp
        also have "\<dots> = Running ((taken f s)\<lparr>sleeps := sl\<rparr>)"
          using s by (subst process_frame_full) (simp_all add: buf0f taken_def mid_def)
        finally show ?thesis using False full True by (simp add: body2)
      next
        case False
        have "find_eof (int m) ?s1 = Running ((mid f 1253 s)\<lparr>sleeps := Suc sl\<rparr>)"
          unfolding fe using False fills_last [OF f] idx lf lb
          by (simp add: FRAME_TOTAL_INTS_def mid_def buf0f)
        then show ?thesis using False full \<open>m \<noteq> 0\<close> by (simp add: body2)
      qed
    next
      case False
      then have lt: "j < 1252" using km j(3) by simp
      have ij: "int j + 1 = int (k + m)" using j(3) by linarith
      have "find_eof (int m) ?s1 = Running ((mid f (k + m) s)\<lparr>sleeps := Suc sl\<rparr>)"
        unfolding fe ij using fills_nth [OF f lt] lt \<open>m \<noteq> 0\<close>
        by (simp add: FRAME_TOTAL_INTS_def mid_def buf0_def)
      then show ?thesis using False \<open>m \<noteq> 0\<close> by (simp add: body2)
    qed
  qed
qed

section \<open>Frames back to back\<close>


text \<open>A frame fills the buffer; what the program is after it.\<close>

lemma length_frame: "length payload = nat N_FRAME_DATA \<Longrightarrow> length (frame ts payload) = 1253"
  by (simp add: frame_def N_FRAME_DATA_def)

lemma fills_frame: "valid_frame ts payload \<Longrightarrow> fills (frame ts payload)"
  by (auto simp: valid_frame_def fills_def frame_def N_FRAME_DATA_def FRAME_TOTAL_INTS_def
      USB_SOF_def USB_EOF_def butlast_append)

lemma last_frame: "last (frame ts payload) = USB_EOF"
  by (simp add: frame_def)

lemma frame_nth_1: "frame ts payload ! Suc 0 = ts"
  by (simp add: frame_def)

lemma frame_nth_sample: "k < length payload \<Longrightarrow> frame ts payload ! Suc (Suc k) = payload ! k"
  by (simp add: frame_def nth_append)

lemma csv_rows_frame:
  assumes "length payload = nat N_FRAME_DATA"
  shows "csv_rows 2 (ucast (ts * 1000)) (frame ts payload) = frame_rows ts payload"
proof -
  have len: "length payload = 1250" using assms by (simp add: N_FRAME_DATA_def)
  show ?thesis
    unfolding csv_rows_2 frame_rows_def len
    by (rule map_cong) (simp_all add: unat_data_timestamp frame_nth_sample len)
qed

lemma taken_frame:
  "length payload = nat N_FRAME_DATA \<Longrightarrow> taken (frame ts payload) s = accepted ts payload s"
  by (simp add: taken_def accepted_def frame_nth_1 csv_rows_frame)

lemma ready_mid: "ready s \<Longrightarrow> (mid f 0 s)\<lparr>sleeps := sleeps s\<rparr> = s"
  by (simp add: ready_def mid_def)










section \<open>The output of whole frames\<close>


lemma csv_out_accepted:
  "fcsv s \<noteq> None \<Longrightarrow> csv_out (accepted ts payload s) = csv_out s @ frame_rows ts payload"
  by (auto simp: csv_out_def accepted_def)







lemma ready_main_init: "ready main_init"
  by (simp add: ready_def main_init_def FRAME_TOTAL_INTS_def)

lemma csv_out_main_init: "csv_out main_init = [Header]"
  by (simp add: csv_out_def main_init_def)


lemma loop_body_whole:
  assumes "valid_frame ts payload" "ready s"
  shows "loop_body (Avail 1253) (frame ts payload @ rest) s = (rest, Running (accepted ts payload s))"
proof -
  have len: "length payload = nat N_FRAME_DATA" using assms(1) by (simp add: valid_frame_def)
  have s: "length (frame_buff s) = nat FRAME_TOTAL_INTS" "fcsv s \<noteq> None"
    using assms(2) by (simp_all add: ready_def)
  have m: "(1253::nat) = min 1253 (1253 - 0)" by simp
  have k: "(0::nat) < 1253" by simp
  from loop_body_fill [OF fills_frame [OF assms(1)] s k m, of rest "sleeps s"]
  show ?thesis
    by (simp add: ready_mid [OF assms(2)] taken_frame [OF len] last_frame length_frame [OF len]
        accepted_def)
qed

lemma run_whole:
  assumes "valid_frame ts payload" "ready s"
  shows "run [Avail 1253] (frame ts payload) s = ([], Running (accepted ts payload s))"
  using loop_body_whole [OF assms, of "[]"] by simp


lemma valid_frame_const:
  "ts \<noteq> USB_EOF \<Longrightarrow> w \<noteq> USB_EOF \<Longrightarrow> valid_frame ts (replicate 1250 w)"
  by (simp add: valid_frame_def N_FRAME_DATA_def)

section \<open>A read that is discarded, and an early end of frame\<close>




section \<open>A start of frame that no end of frame follows\<close>

lemma overrun_input_fills: "fills (USB_SOF # replicate 1252 0)"
proof -
  have "USB_EOF \<notin> set (USB_SOF # replicate 1252 0)"
    by (simp add: USB_SOF_def USB_EOF_def)
  then have "USB_EOF \<notin> set (butlast (USB_SOF # replicate 1252 0))"
    using in_set_butlastD by metis
  then show ?thesis
    by (simp add: fills_def FRAME_TOTAL_INTS_def)
qed

lemma run_overrun_input:
  "run (Avail 1253 # es) (USB_SOF # replicate 1253 0) main_init =
     ([0], Running (main_init\<lparr>state := STATE_FIND_EOF, read_ptr := 1253,
                               frame_buff := USB_SOF # replicate 1252 0,
                               sleeps := Suc (length es)\<rparr>))"
proof -
  let ?f = "USB_SOF # replicate 1252 (0 :: 32 word)"
  have split: "USB_SOF # replicate 1253 (0 :: 32 word) = ?f @ [0]"
    using replicate_add [of 1252 1 "0 :: 32 word"] by simp
  have s: "length (frame_buff main_init) = nat FRAME_TOTAL_INTS" "fcsv main_init \<noteq> None"
    by (simp_all add: main_init_def)
  have m: "(1253::nat) = min 1253 (1253 - 0)" by simp
  have k: "(0::nat) < 1253" by simp
  have last: "last ?f \<noteq> USB_EOF" by (simp add: USB_EOF_def)
  have step: "loop_body (Avail 1253) (USB_SOF # replicate 1252 0 @ [0]) main_init =
      ([0], Running ((mid ?f 1253 main_init)\<lparr>sleeps := Suc 0\<rparr>))"
    using loop_body_fill [OF overrun_input_fills s k m, of "[0]" "sleeps main_init"] last
    by (simp add: ready_mid [OF ready_main_init]) (simp add: main_init_def)
  have full: "read_ptr ((mid ?f 1253 main_init)\<lparr>sleeps := Suc 0\<rparr>) = FRAME_TOTAL_INTS"
    by (simp add: mid_def FRAME_TOTAL_INTS_def)
  have st: "(mid ?f 1253 main_init)\<lparr>sleeps := Suc (length es)\<rparr> =
      main_init\<lparr>state := STATE_FIND_EOF, read_ptr := 1253, frame_buff := ?f,
                 sleeps := Suc (length es)\<rparr>"
    by (simp add: mid_def main_init_def FRAME_TOTAL_INTS_def)
  show ?thesis
    unfolding split by (simp add: step run_full [OF full] st)
qed

text \<open>
  C1. The claim: after the start sentinel and 1253 or more words without the end
  sentinel, the program prints the length diagnostic, resets the fill offset and searches
  for the next start of frame. In the code the test for the overrun comes before the
  increment of \<open>read_ptr\<close> and a read is never longer than the room left, so the test
  never holds: from the start of the program, whatever the stream and the reads, the
  diagnostic is never printed. On the start sentinel followed by 1253 zero words, read
  1253 words at once, the buffer is full with the offset at 1253; every later read asks
  for 0 bytes, the last word of the stream is never taken, and the program sleeps for
  ever in the accumulating state.
\<close>

theorem C1_overrun_never_reported:
  "(\<exists>p' s'. run es p main_init = (p', Running s') \<and> LengthError \<notin> set (stderr s')) \<and>
   run (Avail 1253 # es') (USB_SOF # replicate 1253 0) main_init =
     ([0], Running (main_init\<lparr>state := STATE_FIND_EOF, read_ptr := 1253,
                               frame_buff := USB_SOF # replicate 1252 0,
                               sleeps := Suc (length es')\<rparr>))"
proof -
  have "stderr main_init = []" by (simp add: main_init_def)
  then have "\<exists>p' s'. run es p main_init = (p', Running s') \<and> LengthError \<notin> set (stderr s')"
    using run_in_bounds [OF in_bounds_main_init, of es p] by auto
  then show ?thesis using run_overrun_input by simp
qed

section \<open>The bounds of the buffer\<close>

text \<open>
  C10. From the start of the program, after any reads of any stream, the loop is still
  running without a fault (no read wrote outside the buffer and no word was looked at
  outside it), the fill offset lies between 0 and 1253, the buffer has 1253 words, and
  the next read asks for exactly \<open>(1253 - offset) * 4\<close> bytes. Once the offset is 1253
  the read asks for 0 bytes and no later read changes anything but the number of sleeps.
\<close>

theorem C10_fill_offset_in_bounds:
  assumes "run es p main_init = (p', out)"
  shows "\<exists>s. out = Running s \<and> 0 \<le> read_ptr s \<and> read_ptr s \<le> FRAME_TOTAL_INTS \<and>
           length (frame_buff s) = nat FRAME_TOTAL_INTS \<and>
           int (read_count s) = (FRAME_TOTAL_INTS - read_ptr s) * 4 \<and>
           (read_ptr s = FRAME_TOTAL_INTS \<longrightarrow>
              read_count s = 0 \<and>
              (\<forall>es'. run es' p' s = (p', Running (s\<lparr>sleeps := sleeps s + length es'\<rparr>))))"
proof -
  from run_in_bounds [OF in_bounds_main_init, of es p] assms
  obtain s where s: "out = Running s" "in_bounds s" by auto
  have cnt: "int (read_count s) = (FRAME_TOTAL_INTS - read_ptr s) * 4"
    using s(2) by (simp add: read_count_in_bounds in_bounds_def)
  have "read_count s = 0" if "read_ptr s = FRAME_TOTAL_INTS"
    using that by (simp add: read_count_def)
  then show ?thesis
    using s cnt run_full [of s _ p'] by (auto simp: in_bounds_def)
qed

theorem C10_fill_offset_in_bounds_witness:
  "\<exists>s. run [Avail 1253] (USB_SOF # replicate 1253 0) main_init = ([0], Running s) \<and>
       read_ptr s = FRAME_TOTAL_INTS \<and> read_count s = 0 \<and>
       run [Avail 7, Fail] [0] s =
         ([0], Running (s\<lparr>sleeps := sleeps s + length [Avail 7, Fail]\<rparr>))"
proof -
  define S where "S = main_init\<lparr>state := STATE_FIND_EOF, read_ptr := 1253,
                               frame_buff := USB_SOF # replicate 1252 0,
                               sleeps := Suc 0\<rparr>"
  have r: "run [Avail 1253] (USB_SOF # replicate 1253 0) main_init = ([0], Running S)"
    using run_overrun_input [of "[]"] by (simp add: S_def)
  have full: "read_ptr S = FRAME_TOTAL_INTS"
    by (simp add: S_def FRAME_TOTAL_INTS_def)
  from C10_fill_offset_in_bounds [OF r] full
  have cnt: "read_count S = 0"
    and stuck: "\<forall>es'. run es' [0] S = ([0], Running (S\<lparr>sleeps := sleeps S + length es'\<rparr>))"
    by blast+
  from stuck have "run [Avail 7, Fail] [0] S
      = ([0], Running (S\<lparr>sleeps := sleeps S + length [Avail 7, Fail]\<rparr>))"
    by (rule spec)
  with r full cnt show ?thesis by blast
qed

section \<open>Streams of whole frames\<close>











text \<open>
  C3. The claim: the rows of a frame with timestamp \<open>T\<close> start at the exact product
  \<open>T * 1000\<close>, as a 64-bit number. The code multiplies in 32 bits and widens the
  product afterwards, so from \<open>T = 4294968\<close> on the start wraps. The frame with
  timestamp 4294968 and samples 7, read whole from the start of the program: the rows
  start at 704 and go on in steps of 80, where the product is 4294968000.
\<close>

theorem C3_timestamp_product_wraps:
  "fst (run [Avail 1253] (frame 4294968 (replicate 1250 7)) main_init) = [] \<and>
   printed (run [Avail 1253] (frame 4294968 (replicate 1250 7)) main_init)
     = Header # map (\<lambda>k. Row (704 + 80 * k) 7) [0..<1250] \<and>
   unat (4294968 :: 32 word) * 1000 = 4294968000"
proof -
  have v: "valid_frame 4294968 (replicate 1250 7)"
    by (simp add: valid_frame_const USB_EOF_def)
  have r: "run [Avail 1253] (frame 4294968 (replicate 1250 7)) main_init
      = ([], Running (accepted 4294968 (replicate 1250 7) main_init))"
    by (rule run_whole [OF v ready_main_init])
  have rows: "frame_rows 4294968 (replicate 1250 7) = map (\<lambda>k. Row (704 + 80 * k) 7) [0..<1250]"
    unfolding frame_rows_def by (rule map_cong) simp_all
  have "fcsv main_init \<noteq> None" by (simp add: main_init_def)
  then have "csv_out (accepted 4294968 (replicate 1250 7) main_init)
      = Header # map (\<lambda>k. Row (704 + 80 * k) 7) [0..<1250]"
    by (simp add: csv_out_accepted csv_out_main_init rows)
  then show ?thesis unfolding r by (simp add: printed_def)
qed

section \<open>Noise before a frame\<close>







section \<open>Reads that return no data\<close>

lemma process_frame_sleeps:
  "process_frame (s\<lparr>sleeps := sleeps s + d\<rparr>)
     = map_outcome (\<lambda>s. s\<lparr>sleeps := sleeps s + d\<rparr>) (process_frame s)"
  by (simp add: process_frame_def map_outcome_def Let_def split: option.splits)

lemma find_eof_sleeps:
  "find_eof n (s\<lparr>sleeps := sleeps s + d\<rparr>)
     = map_outcome (\<lambda>s. s\<lparr>sleeps := sleeps s + d\<rparr>) (find_eof n s)"
proof -
  have pf: "process_frame (s\<lparr>sleeps := sleeps s + d, read_ptr := r\<rparr>)
      = map_outcome (\<lambda>s. s\<lparr>sleeps := sleeps s + d\<rparr>) (process_frame (s\<lparr>read_ptr := r\<rparr>))" for r
  proof -
    have eq: "s\<lparr>sleeps := sleeps s + d, read_ptr := r\<rparr>
        = (s\<lparr>read_ptr := r\<rparr>)\<lparr>sleeps := sleeps (s\<lparr>read_ptr := r\<rparr>) + d\<rparr>"
      by simp
    show ?thesis unfolding eq by (rule process_frame_sleeps)
  qed
  show ?thesis
    by (simp add: find_eof_def Let_def pf split: option.splits) (simp add: map_outcome_def)
qed

lemma find_sof_sleeps:
  "find_sof (s\<lparr>sleeps := sleeps s + d\<rparr>)
     = map_sum (map_outcome (\<lambda>s. s\<lparr>sleeps := sleeps s + d\<rparr>)) (\<lambda>s. s\<lparr>sleeps := sleeps s + d\<rparr>)
         (find_sof s)"
  by (simp add: find_sof_def map_outcome_def split: option.splits)

lemma loop_body_sleeps:
  "loop_body e p (s\<lparr>sleeps := sleeps s + d\<rparr>) = add_sleeps d (loop_body e p s)"
proof -
  let ?g = "\<lambda>s. s\<lparr>sleeps := sleeps s + d\<rparr>"
  obtain r ws p' where rd: "tty_read e p (read_count s) = (r, ws, p')"
    by (cases "tty_read e p (read_count s)") auto
  have rc: "read_count (?g s) = read_count s"
    by (simp add: read_count_def)
  define n where "n = c_div r 4"
  show ?thesis
  proof (cases "store (frame_buff s) (read_ptr s) ws")
    case None
    then show ?thesis
      by (simp add: loop_body_def rc rd add_sleeps_def map_outcome_def)
  next
    case (Some buf)
    let ?s0 = "s\<lparr>frame_buff := buf\<rparr>"
    have g0: "(?g s)\<lparr>frame_buff := buf\<rparr> = ?g ?s0" by simp
    have b1: "loop_body e p s =
        (p', if n < 0
             then Exited EXIT_FAILURE
                    (fclose_fcsv (?s0\<lparr>stderr := stderr ?s0 @ [ReadError],
                                      buff_live := False, tty_open := False\<rparr>))
             else if n = 0 then Running (?s0\<lparr>sleeps := sleeps ?s0 + 1\<rparr>)
             else (case find_sof ?s0 of
                     Inl out \<Rightarrow> out
                   | Inr s1 \<Rightarrow> if state s1 = STATE_FIND_EOF then find_eof n s1 else Running s1))"
      unfolding n_def by (simp add: loop_body_def rd Some Let_def)
    let ?t0 = "(?g s)\<lparr>frame_buff := buf\<rparr>"
    have b2: "loop_body e p (?g s) =
        (p', if n < 0
             then Exited EXIT_FAILURE
                    (fclose_fcsv (?t0\<lparr>stderr := stderr ?t0 @ [ReadError],
                                      buff_live := False, tty_open := False\<rparr>))
             else if n = 0 then Running (?t0\<lparr>sleeps := sleeps ?t0 + 1\<rparr>)
             else (case find_sof ?t0 of
                     Inl out \<Rightarrow> out
                   | Inr s1 \<Rightarrow> if state s1 = STATE_FIND_EOF then find_eof n s1 else Running s1))"
      unfolding n_def loop_body_def rc rd by (simp add: Some Let_def)
    have t0: "?t0 = ?g ?s0" by simp
    consider (neg) "n < 0" | (zero) "n = 0" | (pos) "0 < n" by linarith
    then show ?thesis
    proof cases
      case neg
      have "(?g ?s0)\<lparr>stderr := stderr (?g ?s0) @ [ReadError], buff_live := False, tty_open := False\<rparr>
          = ?g (?s0\<lparr>stderr := stderr ?s0 @ [ReadError], buff_live := False, tty_open := False\<rparr>)"
        by simp
      then show ?thesis
        unfolding b1 b2 t0 using neg
        by (simp add: add_sleeps_def map_outcome_def fclose_fcsv_def split: option.splits)
    next
      case zero
      then show ?thesis
        unfolding b1 b2 t0 by (simp add: add_sleeps_def map_outcome_def)
    next
      case pos
      show ?thesis
      proof (cases "find_sof ?s0")
        case (Inl out)
        then show ?thesis
          unfolding b1 b2 t0 find_sof_sleeps using pos
          by (simp add: add_sleeps_def)
      next
        case (Inr s1)
        then show ?thesis
          unfolding b1 b2 t0 find_sof_sleeps using pos
          by (simp add: add_sleeps_def find_eof_sleeps) (simp add: map_outcome_def)
      qed
    qed
  qed
qed

lemma add_sleeps_Running: "add_sleeps d (p, Running s) = (p, Running (s\<lparr>sleeps := sleeps s + d\<rparr>))"
  by (simp add: add_sleeps_def map_outcome_def)

lemma run_sleeps:
  "run es p (s\<lparr>sleeps := sleeps s + d\<rparr>) = add_sleeps d (run es p s)"
proof (induction es arbitrary: p s)
  case Nil
  show ?case by (simp add: add_sleeps_Running)
next
  case (Cons e es)
  obtain p1 out1 where l: "loop_body e p s = (p1, out1)" by (cases "loop_body e p s") auto
  show ?case
  proof (cases out1)
    case (Running s1)
    then show ?thesis
      by (simp add: loop_body_sleeps l add_sleeps_Running Cons.IH)
  next
    case (Exited k s1)
    then show ?thesis
      by (simp add: loop_body_sleeps l add_sleeps_def map_outcome_def)
  next
    case Fault
    then show ?thesis
      by (simp add: loop_body_sleeps l add_sleeps_def map_outcome_def)
  qed
qed

lemma untimed_add_sleeps: "untimed (add_sleeps d c) = untimed c"
  by (cases c; cases "snd c") (auto simp: untimed_def add_sleeps_def map_outcome_def)

lemma loop_body_zero_read:
  "loop_body (Avail 0) p s = (p, Running (s\<lparr>sleeps := sleeps s + 1\<rparr>))"
  by (simp add: loop_body_def tty_read_def store_def c_div_def)

lemma untimed_drop_zero_reads:
  "untimed (run (filter (\<lambda>e. \<not> zero_read e) es) p s) = untimed (run es p s)"
proof (induction es arbitrary: p s)
  case Nil
  show ?case by simp
next
  case (Cons e es)
  show ?case
  proof (cases "zero_read e")
    case True
    then have e: "e = Avail 0" by (simp add: zero_read_def)
    have "run (e # es) p s = add_sleeps 1 (run es p s)"
      using run_sleeps [of es p s 1] by (simp add: e loop_body_zero_read)
    then show ?thesis using True Cons.IH by (simp add: untimed_add_sleeps)
  next
    case False
    obtain p1 out1 where l: "loop_body e p s = (p1, out1)" by (cases "loop_body e p s") auto
    show ?thesis using False Cons.IH
      by (cases out1) (simp_all add: l)
  qed
qed

text \<open>
  C7. Two sequences of reads that differ only in reads that return no data, wherever
  they stand, take the program from the same state and the same stream to the same
  state and the same rest of the stream, up to the number of sleeps: the CSV file and
  the diagnostics are the same. A read that returns no data is no error: the loop
  sleeps once and goes on with the state it had.
\<close>

theorem C7_zero_length_reads_do_not_change_output:
  assumes "filter (\<lambda>e. \<not> zero_read e) es1 = filter (\<lambda>e. \<not> zero_read e) es2"
  shows "untimed (run es1 p s) = untimed (run es2 p s) \<and>
         loop_body (Avail 0) p s = (p, Running (s\<lparr>sleeps := sleeps s + 1\<rparr>))"
  using untimed_drop_zero_reads [of es1 p s] untimed_drop_zero_reads [of es2 p s] assms
  by (simp add: loop_body_zero_read)

theorem C7_zero_length_reads_do_not_change_output_witness:
  "untimed (run [Avail 0, Avail 1253, Avail 0, Avail 0] (frame 1000 (replicate 1250 7)) main_init)
     = untimed (run [Avail 1253] (frame 1000 (replicate 1250 7)) main_init)"
proof -
  have "filter (\<lambda>e. \<not> zero_read e) [Avail 0, Avail 1253, Avail 0, Avail 0]
      = filter (\<lambda>e. \<not> zero_read e) [Avail 1253]"
    by (simp add: zero_read_def)
  from C7_zero_length_reads_do_not_change_output [OF this] show ?thesis by blast
qed

section \<open>An end of frame before the buffer is full\<close>

lemma csv_rows_explicit:
  "csv_rows 2 (ucast (ts * 1000 :: 32 word)) buf =
     map (\<lambda>k. Row ((unat ts * 1000) mod 2 ^ 32 + 80 * k) (sint (buf ! (2 + k)))) [0..<1250]"
  unfolding csv_rows_2
proof (rule map_cong)
  fix k assume "k \<in> set [0..<1250]"
  then have k: "k < 1250" by simp
  show "Row (unat (ucast (ts * 1000 :: 32 word) + 80 * word_of_nat k :: 64 word)) (sint (buf ! (2 + k)))
      = Row ((unat ts * 1000) mod 2 ^ 32 + 80 * k) (sint (buf ! (2 + k)))"
    by (simp only: unat_data_timestamp [OF k])
qed simp

lemma short_frame_rows:
  assumes "take (Suc j) buf = USB_SOF # ts # samples @ [USB_EOF]" "j < length buf" "j < 1252"
  shows "buf ! 1 = ts"
    and "take (length samples)
           (map (\<lambda>k. Row ((unat (buf ! 1) * 1000) mod 2 ^ 32 + 80 * k) (sint (buf ! (2 + k))))
              [0..<1250])
         = frame_rows ts samples"
proof -
  have len: "Suc j = length samples + 3"
    using arg_cong [OF assms(1), of length] assms(2) by simp
  have nth: "buf ! i = (USB_SOF # ts # samples @ [USB_EOF]) ! i" if "i < Suc j" for i
    using that nth_take [of i "Suc j" buf] assms(1) by simp
  show ts: "buf ! 1 = ts"
    using nth [of 1] len by simp
  have smp: "buf ! Suc (Suc k) = samples ! k" if "k < length samples" for k
    using nth [of "Suc (Suc k)"] that len by (simp add: nth_append)
  have le: "length samples \<le> 1250" using len assms(3) by simp
  have "take (length samples)
           (map (\<lambda>k. Row ((unat (buf ! 1) * 1000) mod 2 ^ 32 + 80 * k) (sint (buf ! (2 + k))))
              [0..<1250])
        = map (\<lambda>k. Row ((unat (buf ! 1) * 1000) mod 2 ^ 32 + 80 * k) (sint (buf ! (2 + k))))
              [0..<length samples]"
    using le by (simp add: take_map min_absorb2)
  also have "\<dots> = frame_rows ts samples"
    unfolding frame_rows_def ts by (rule map_cong) (simp_all add: smp)
  finally show "take (length samples)
           (map (\<lambda>k. Row ((unat (buf ! 1) * 1000) mod 2 ^ 32 + 80 * k) (sint (buf ! (2 + k))))
              [0..<1250])
         = frame_rows ts samples" .
qed

text \<open>
  C8. The block that looks for the end of frame finds the end sentinel in the last word
  read, at an offset that does not make 1253 words of the 1253-word buffer. Then the loop
  goes on: the size warning is printed with the timestamp word and the length found
  (followed by the interval diagnostic if that check fails too), and 1250 rows are
  printed, row \<open>k\<close> with the time \<open>(T * 1000) mod 2^32 + 80 * k\<close> for the timestamp word
  \<open>T\<close> and with the word \<open>2 + k\<close> of the buffer as its sample. When the buffer up to the end
  sentinel is a short frame (start sentinel, timestamp, samples, end sentinel), the first
  rows are the rows of its samples, in order, under its timestamp. The fill offset is 0,
  the state is the search for the start of frame, the retained timestamp is that of the
  frame and the buffer is as it was.
\<close>

theorem C8_size_mismatch_is_only_a_warning:
  assumes "peek (frame_buff s) (read_ptr s + (n - 1)) = Some USB_EOF"
    and "read_ptr s + (n - 1) + 1 \<noteq> FRAME_TOTAL_INTS"
    and "length (frame_buff s) = nat FRAME_TOTAL_INTS"
    and "fcsv s = Some b"
  shows "\<exists>s'. find_eof n s = Running s' \<and>
           stderr s' = stderr s @ [SizeMismatch (frame_buff s ! 1) (read_ptr s + (n - 1) + 1)]
                         @ interval_diag (last_frame_timestamp s) (frame_buff s ! 1) \<and>
           csv_out s' = csv_out s @
             map (\<lambda>k. Row ((unat (frame_buff s ! 1) * 1000) mod 2 ^ 32 + 80 * k)
                        (sint (frame_buff s ! (2 + k)))) [0..<1250] \<and>
           (\<forall>ts samples.
              take (Suc (nat (read_ptr s + (n - 1)))) (frame_buff s)
                = USB_SOF # ts # samples @ [USB_EOF] \<longrightarrow>
              take (length samples) (drop (length (csv_out s)) (csv_out s')) = frame_rows ts samples) \<and>
           state s' = STATE_FIND_SOF \<and> read_ptr s' = 0 \<and>
           last_frame_timestamp s' = frame_buff s ! 1 \<and> frame_buff s' = frame_buff s"
proof -
  let ?rows = "map (\<lambda>k. Row ((unat (frame_buff s ! 1) * 1000) mod 2 ^ 32 + 80 * k)
                        (sint (frame_buff s ! (2 + k)))) [0..<1250]"
  define j where "j = nat (read_ptr s + (n - 1))"
  have j: "j < length (frame_buff s)" "j < 1252"
    using assms(1,2,3) by (auto simp: peek_def j_def FRAME_TOTAL_INTS_def split: if_splits)
  define s' where "s' = s\<lparr>read_ptr := 0, state := STATE_FIND_SOF,
      stderr := stderr s @ [SizeMismatch (frame_buff s ! 1) (read_ptr s + (n - 1) + 1)]
                  @ interval_diag (last_frame_timestamp s) (frame_buff s ! 1),
      last_frame_timestamp := frame_buff s ! 1,
      fcsv := Some (b @ ?rows)\<rparr>"
  have run: "find_eof n s = Running s'"
    using assms(1,2,4)
    by (simp add: find_eof_def process_frame_def Let_def interval_diag_def
        word_of_int_FRAME_INTERVAL csv_rows_explicit s'_def)
  have out: "csv_out s' = csv_out s @ ?rows"
    using assms(4) by (simp add: csv_out_def s'_def)
  have smp: "take (length samples) (drop (length (csv_out s)) (csv_out s')) = frame_rows ts samples"
    if "take (Suc j) (frame_buff s) = USB_SOF # ts # samples @ [USB_EOF]" for ts samples
    unfolding out using short_frame_rows(2) [OF that j] by simp
  show ?thesis
    using run out smp unfolding j_def by (intro exI [of _ s']) (simp add: s'_def)
qed

theorem C8_size_mismatch_is_only_a_warning_witness:
  "\<exists>s'. find_eof 6 (main_init\<lparr>frame_buff := USB_SOF # 5 # 11 # 22 # 33 # USB_EOF # replicate 1247 0,
                                state := STATE_FIND_EOF\<rparr>) = Running s' \<and>
        stderr s' = [SizeMismatch 5 6] \<and>
        take 3 (tl (csv_out s')) = [Row 5000 11, Row 5080 22, Row 5160 33] \<and>
        map row_sample (tl (csv_out s')) = [11, 22, 33, - 1431655766] @ replicate 1246 0 \<and>
        state s' = STATE_FIND_SOF \<and> read_ptr s' = 0"
proof -
  let ?buf = "USB_SOF # 5 # 11 # 22 # 33 # USB_EOF # replicate 1247 (0 :: 32 word)"
  let ?s = "main_init\<lparr>frame_buff := ?buf, state := STATE_FIND_EOF\<rparr>"
  have 1: "peek (frame_buff ?s) (read_ptr ?s + (6 - 1)) = Some USB_EOF"
    by (simp add: peek_def main_init_def)
  have 2: "read_ptr ?s + (6 - 1) + 1 \<noteq> FRAME_TOTAL_INTS"
    by (simp add: main_init_def FRAME_TOTAL_INTS_def)
  have 3: "length (frame_buff ?s) = nat FRAME_TOTAL_INTS"
    by (simp add: FRAME_TOTAL_INTS_def)
  have 4: "fcsv ?s = Some [Header]"
    by (simp add: main_init_def)
  have 5: "csv_out ?s = [Header]"
    by (simp add: csv_out_def main_init_def)
  have 6: "stderr ?s @ [SizeMismatch (frame_buff ?s ! 1) (read_ptr ?s + (6 - 1) + 1)]
             @ interval_diag (last_frame_timestamp ?s) (frame_buff ?s ! 1) = [SizeMismatch 5 6]"
    by (simp add: main_init_def interval_diag_def)
  have 7: "take (Suc (nat (read_ptr ?s + (6 - 1)))) (frame_buff ?s)
      = USB_SOF # 5 # [11, 22, 33] @ [USB_EOF]"
    by (simp add: main_init_def)
  have 8: "frame_rows 5 [11, 22, 33] = [Row 5000 11, Row 5080 22, Row 5160 33]"
    by (simp add: frame_rows_def upt_conv_Cons)
  from C8_size_mismatch_is_only_a_warning [OF 1 2 3 4]
  obtain s' where s': "find_eof 6 ?s = Running s'"
    "stderr s' = [SizeMismatch 5 6]"
    "csv_out s' = [Header] @
             map (\<lambda>k. Row ((unat (frame_buff ?s ! 1) * 1000) mod 2 ^ 32 + 80 * k)
                        (sint (frame_buff ?s ! (2 + k)))) [0..<1250]"
    "\<forall>ts samples.
              take (Suc (nat (read_ptr ?s + (6 - 1)))) (frame_buff ?s)
                = USB_SOF # ts # samples @ [USB_EOF] \<longrightarrow>
              take (length samples) (drop (length [Header]) (csv_out s')) = frame_rows ts samples"
    "state s' = STATE_FIND_SOF" "read_ptr s' = 0"
    unfolding 5 6 by blast
  from s'(4) 7 have "take (length [11, 22, 33 :: 32 word]) (drop (length [Header]) (csv_out s'))
      = frame_rows 5 [11, 22, 33]"
    by blast
  then have a: "take 3 (tl (csv_out s')) = [Row 5000 11, Row 5080 22, Row 5160 33]"
    unfolding 8 by (simp add: drop_Suc numeral_3_eq_3)
  have "map (\<lambda>k. sint (?buf ! (2 + k))) [0..<1250] = [11, 22, 33, - 1431655766] @ replicate 1246 0"
  proof (rule nth_equalityI)
    show "length (map (\<lambda>k. sint (?buf ! (2 + k))) [0..<1250])
        = length ([11, 22, 33, - 1431655766] @ replicate 1246 (0 :: int))"
      by simp
  next
    fix i assume "i < length (map (\<lambda>k. sint (?buf ! (2 + k))) [0..<1250])"
    then have i: "i < 1250" by simp
    consider "i = 0" | "i = 1" | "i = 2" | "i = 3" | "4 \<le> i" by linarith
    then show "map (\<lambda>k. sint (?buf ! (2 + k))) [0..<1250] ! i
        = ([11, 22, 33, - 1431655766] @ replicate 1246 (0 :: int)) ! i"
    proof cases
      case 5
      define d where "d = i - 4"
      have d: "i = 4 + d" "d < 1246" using 5 i by (simp_all add: d_def)
      let ?hd = "[USB_SOF, 5, 11, 22, 33, USB_EOF :: 32 word]"
      let ?out = "[11, 22, 33, - 1431655766 :: int]"
      have l: "2 + i = length ?hd + d" using d(1) by simp
      have "?buf ! (2 + i) = (?hd @ replicate 1247 0) ! (length ?hd + d)"
        unfolding l by simp
      also have "\<dots> = replicate 1247 0 ! d" by (rule nth_append_length_plus)
      also have "\<dots> = 0" using d(2) by simp
      finally have lhs: "?buf ! (2 + i) = 0" .
      have "(?out @ replicate 1246 0) ! i = (?out @ replicate 1246 0) ! (length ?out + d)"
        using d(1) by simp
      also have "\<dots> = replicate 1246 0 ! d" by (rule nth_append_length_plus)
      also have "\<dots> = 0" using d(2) by simp
      finally have rhs: "(?out @ replicate 1246 0) ! i = 0" .
      have "map (\<lambda>k. sint (?buf ! (2 + k))) [0..<1250] ! i = sint (?buf ! (2 + i))"
        using i by (simp del: nth_Cons_numeral nth_Cons')
      then show ?thesis unfolding lhs rhs by simp
    qed (simp_all add: USB_EOF_def)
  qed
  then have b: "map row_sample (tl (csv_out s')) = [11, 22, 33, - 1431655766] @ replicate 1246 0"
    unfolding s'(3) by (simp add: comp_def)
  from s'(1,2,5,6) a b show ?thesis by blast
qed

section \<open>Termination by a signal\<close>

text \<open>
  C9, as the code has it. Whatever the program is doing when the signal \<open>sig\<close> arrives,
  the handler writes the buffered lines to the file, closes the stream, sets \<open>fcsv\<close> to
  null and exits with status \<open>128 + sig\<close>: 130 for the interrupt signal, 143 for the
  terminate signal.
\<close>

theorem C9_signal_handler_flushes_and_exits_128_plus_sig:
  "(\<exists>s'. handle_signal sig s = Exited (128 + sig) s' \<and>
         fcsv s' = None \<and> csv_file s' = csv_out s) \<and>
   exit_status (handle_signal SIGINT s) = Some 130 \<and>
   exit_status (handle_signal SIGTERM s) = Some 143"
  by (cases "fcsv s")
     (simp_all add: handle_signal_def fclose_fcsv_def fflush_fcsv_def csv_out_def exit_status_def
        SIGINT_def SIGTERM_def)

text \<open>C9 as it is stated gives the exit status 0. At the start of the program:\<close>

theorem C9_exit_status_not_zero_counterexample:
  "exit_status (handle_signal SIGINT main_init) = Some 130 \<and>
   exit_status (handle_signal SIGTERM main_init) = Some 143 \<and>
   exit_status (handle_signal SIGINT main_init) \<noteq> Some 0"
  by (simp add: handle_signal_def exit_status_def SIGINT_def SIGTERM_def)

end
